theory Spec2Isabelle
  imports Main
begin

section \<open>Python values, exceptions and text\<close>

text \<open>
  Objects live in a heap and are named by their address, which plays the role of Python's
  \<open>id(obj)\<close>. Exceptions are values; \<open>RuntimeError m c\<close> carries its \<open>__cause__\<close>
  (the \<open>raise ... from e\<close> of the source). Text is a list of bytes, so the symbols and
  the Chinese captions of the source are written as their UTF-8 encoding.
\<close>

type_synonym addr = nat

datatype exn =
    Exception string
  | TypeError string
  | ValueError string
  | RuntimeError string exn
  | RecursionError string

fun str_exn :: "exn \<Rightarrow> string" where
  "str_exn (Exception m) = m"
| "str_exn (TypeError m) = m"
| "str_exn (ValueError m) = m"
| "str_exn (RuntimeError m c) = m"
| "str_exn (RecursionError m) = m"

datatype pyval =
    VState addr
  | VNone
  | VObj string
  | VList "pyval list"

fun is_State :: "pyval \<Rightarrow> bool" where
  "is_State (VState a) = True"
| "is_State v = False"

fun the_addr :: "pyval \<Rightarrow> addr" where
  "the_addr (VState a) = a"
| "the_addr v = 0"

definition class_repr :: "string \<Rightarrow> string" where
  "class_repr n = ''<class '' @ [CHR 0x27] @ n @ [CHR 0x27] @ ''>''"

fun type_repr :: "pyval \<Rightarrow> string" where
  "type_repr (VState a) = class_repr ''State''"
| "type_repr VNone = class_repr ''NoneType''"
| "type_repr (VObj n) = class_repr n"
| "type_repr (VList vs) = class_repr ''list''"

definition digits :: string where
  "digits = ''0123456789''"

fun str_nat :: "nat \<Rightarrow> string" where
  "str_nat n = (if n < 10 then [digits ! n] else str_nat (n div 10) @ [digits ! (n mod 10)])"

declare str_nat.simps [simp del]

definition str_int :: "int \<Rightarrow> string" where
  "str_int i = (if i < 0 then ''-'' @ str_nat (nat (- i)) else str_nat (nat i))"

definition join :: "string \<Rightarrow> string list \<Rightarrow> string" where
  "join sep xs = (case xs of [] \<Rightarrow> [] | y # ys \<Rightarrow> y @ concat (map (\<lambda>z. sep @ z) ys))"

definition cycle_sym :: string where
  "cycle_sym = [CHR 0xF0, CHR 0x9F, CHR 0x94, CHR 0x84]"

definition bubble_sym :: string where
  "bubble_sym = [CHR 0xF0, CHR 0x9F, CHR 0x8E, CHR 0x88]"

definition brain_sym :: string where
  "brain_sym = [CHR 0xF0, CHR 0x9F, CHR 0xA7, CHR 0xA0]"

definition memo_sym :: string where
  "memo_sym = [CHR 0xF0, CHR 0x9F, CHR 0x93, CHR 0x9D]"

definition txt_cycle_or_depth :: string where
  "txt_cycle_or_depth = '' ('' @ [CHR 0xE5, CHR 0xBE, CHR 0xAA, CHR 0xE7, CHR 0x8E, CHR 0xAF,
     CHR 0xE5, CHR 0xBC, CHR 0x95, CHR 0xE7, CHR 0x94, CHR 0xA8, CHR 0xE6, CHR 0x88, CHR 0x96,
     CHR 0xE6, CHR 0xB7, CHR 0xB1, CHR 0xE5, CHR 0xBA, CHR 0xA6, CHR 0xE9, CHR 0x99, CHR 0x90,
     CHR 0xE5, CHR 0x88, CHR 0xB6] @ '')''"

definition txt_arrow :: string where
  "txt_arrow = '' '' @ [CHR 0xE2, CHR 0x86, CHR 0x90]"

definition txt_original :: string where
  "txt_original = '' ('' @ [CHR 0xE5, CHR 0x8E, CHR 0x9F, CHR 0xE5, CHR 0xA7, CHR 0x8B] @ '')''"

definition txt_raw_input :: string where
  "txt_raw_input = [CHR 0xE5, CHR 0x8E, CHR 0x9F, CHR 0xE5, CHR 0xA7, CHR 0x8B, CHR 0xE8,
     CHR 0xBE, CHR 0x93, CHR 0xE5, CHR 0x85, CHR 0xA5]"

definition txt_operation :: string where
  "txt_operation = [CHR 0xE6, CHR 0x93, CHR 0x8D, CHR 0xE4, CHR 0xBD, CHR 0x9C]"

definition txt_unknown :: string where
  "txt_unknown = [CHR 0xE6, CHR 0x9C, CHR 0xAA, CHR 0xE7, CHR 0x9F, CHR 0xA5, CHR 0xE6,
     CHR 0x9D, CHR 0xA5, CHR 0xE6, CHR 0xBA, CHR 0x90]"

definition txt_depth_limit :: string where
  "txt_depth_limit = [CHR 0xE6, CHR 0xB7, CHR 0xB1, CHR 0xE5, CHR 0xBA, CHR 0xA6, CHR 0xE9,
     CHR 0x99, CHR 0x90, CHR 0xE5, CHR 0x88, CHR 0xB6] @ ''(''"

definition txt_cycle_ref :: string where
  "txt_cycle_ref = '' ('' @ [CHR 0xE5, CHR 0xBE, CHR 0xAA, CHR 0xE7, CHR 0x8E, CHR 0xAF,
     CHR 0xE5, CHR 0xBC, CHR 0x95, CHR 0xE7, CHR 0x94, CHR 0xA8] @ '')''"

definition conn_last :: string where
  "conn_last = [CHR 0xE2, CHR 0x94, CHR 0x94, CHR 0xE2, CHR 0x94, CHR 0x80, CHR 0xE2, CHR 0x94,
     CHR 0x80] @ '' ''"

definition conn_mid :: string where
  "conn_mid = [CHR 0xE2, CHR 0x94, CHR 0x9C, CHR 0xE2, CHR 0x94, CHR 0x80, CHR 0xE2, CHR 0x94,
     CHR 0x80] @ '' ''"

definition pre_bar :: string where
  "pre_bar = [CHR 0xE2, CHR 0x94, CHR 0x82] @ ''   ''"

definition txt_no_records :: string where
  "txt_no_records = [CHR 0xE6, CHR 0x97, CHR 0xA0, CHR 0xE8, CHR 0xAE, CHR 0xB0, CHR 0xE5,
     CHR 0xBD, CHR 0x95]"

definition txt_trace_header :: string where
  "txt_trace_header = '' '' @ [CHR 0xE8, CHR 0xAE, CHR 0xA1, CHR 0xE7, CHR 0xAE, CHR 0x97,
     CHR 0xE5, CHR 0x9B, CHR 0xBE, CHR 0xE8, CHR 0xBF, CHR 0xBD, CHR 0xE6, CHR 0xBA, CHR 0xAF]
     @ '':''"

section \<open>Op and State (core/op.py, core/state.py)\<close>

text \<open>
  An \<open>Op\<close> is known to the graph by the name of its class and by its \<open>name\<close>
  attribute; its \<open>forward\<close> method is a parameter of the functions that run it. A
  \<open>State\<close> holds the fields the constructor sets, except the wall-clock
  \<open>timestamp\<close>. The field \<open>is_origin_attr\<close> is the entry \<open>is_origin\<close> of the
  instance dictionary: absent after construction, so that \<open>state.is_origin\<close> finds the
  method of the class, and present once \<open>OpFunction.apply\<close> has executed
  \<open>output.is_origin = False\<close>. The field \<open>note\<close> of the source is
  \<open>note_str\<close> here.
\<close>

record Op =
  class_name :: string
  name :: string

definition Op_init :: "string \<Rightarrow> string option \<Rightarrow> Op" where
  "Op_init cls nm =
     \<lparr>class_name = cls,
      name = (case nm of None \<Rightarrow> cls | Some n \<Rightarrow> if n = [] then cls else n)\<rparr>"

datatype payload = Payload (payload_type: string) (payload_body: string)

record State =
  payload :: payload
  creator_op :: "Op option"
  inputs :: "addr list"
  can_trace :: bool
  note_str :: string
  bubble_id :: string
  is_origin_attr :: "bool option"

type_synonym heap = "State list"




text \<open>
  \<open>state.is_origin()\<close> looks the attribute up first in the instance dictionary: a
  \<open>bool\<close> found there is not callable, and the call raises \<open>TypeError\<close>.
\<close>

definition is_origin :: "State \<Rightarrow> exn + bool" where
  "is_origin s =
     (case is_origin_attr s of
        None \<Rightarrow> Inr (creator_op s = None)
      | Some b \<Rightarrow> Inl (TypeError ([CHR 0x27] @ ''bool'' @ [CHR 0x27] @ '' object is not callable'')))"

definition get_source :: "State \<Rightarrow> exn + string" where
  "get_source s =
     (case is_origin s of
        Inl e \<Rightarrow> Inl e
      | Inr True \<Rightarrow> Inr txt_raw_input
      | Inr False \<Rightarrow>
          (case creator_op s of
             Some c \<Rightarrow> Inr (class_name c @ txt_operation)
           | None \<Rightarrow> Inr txt_unknown))"

section \<open>The wiring algorithm (OpFunction.apply)\<close>

text \<open>
  \<open>forward\<close> is arbitrary code of a subclass: it receives the inputs and the heap, and
  either raises or returns a value, leaving a heap behind in both cases.
\<close>

type_synonym forward = "pyval list \<Rightarrow> heap \<Rightarrow> (exn + pyval) \<times> heap"

definition outputs_of :: "pyval \<Rightarrow> pyval list" where
  "outputs_of out = (case out of VList vs \<Rightarrow> vs | _ \<Rightarrow> [out])"

definition stamp :: "Op \<Rightarrow> addr list \<Rightarrow> addr \<Rightarrow> heap \<Rightarrow> heap" where
  "stamp c ins a h =
     (if creator_op (h ! a) = None
      then h[a := (h ! a)\<lparr>creator_op := Some c, inputs := ins, is_origin_attr := Some False\<rparr>]
      else h)"

fun wire :: "Op \<Rightarrow> addr list \<Rightarrow> pyval list \<Rightarrow> addr list \<Rightarrow> heap \<Rightarrow> (exn + addr list) \<times> heap" where
  "wire c ins [] acc h = (Inr acc, h)"
| "wire c ins (VState a # vs) acc h = wire c ins vs (acc @ [a]) (stamp c ins a h)"
| "wire c ins (v # vs) acc h =
     (Inl (TypeError (''Op '' @ name c @ '' output must be State, got '' @ type_repr v)), h)"

datatype result = Single addr | Multiple "addr list"

definition collapse :: "addr list \<Rightarrow> result" where
  "collapse result_states =
     (if length result_states = 1 then Single (result_states ! 0) else Multiple result_states)"

definition OpFunction_apply :: "Op \<Rightarrow> forward \<Rightarrow> pyval list \<Rightarrow> heap \<Rightarrow> (exn + result) \<times> heap" where
  "OpFunction_apply c fwd ins h =
     (case find (\<lambda>v. \<not> is_State v) ins of
        Some v \<Rightarrow> (Inl (TypeError (''Expected State, got '' @ type_repr v)), h)
      | None \<Rightarrow>
          (case fwd ins h of
             (Inl e, h1) \<Rightarrow>
               (Inl (RuntimeError (''Op '' @ name c @ '' failed: '' @ str_exn e) e), h1)
           | (Inr out, h1) \<Rightarrow>
               (case wire c (map the_addr ins) (outputs_of out) [] h1 of
                  (Inl e, h2) \<Rightarrow> (Inl e, h2)
                | (Inr rs, h2) \<Rightarrow> (Inr (collapse rs), h2))))"

section \<open>OpRecord and Logbook (core/op.py, core/agent.py)\<close>

text \<open>
  An \<open>OpRecord\<close> keeps the fields that the ledger reads; its random \<open>record_id\<close> and
  the clock readings \<open>timestamp\<close> and \<open>execution_time\<close> are left out, and so is the
  console output of a verbose \<open>Logbook\<close>. \<open>Logbook.record\<close> changes the logbook only
  on the paths that return, so a raised exception leaves the logbook as it was.
\<close>

datatype status = Started | Completed | Failed

record OpRecord =
  rec_op_name :: string
  rec_inputs :: "addr list"
  rec_output :: "addr option"
  rec_status :: status
  rec_error :: "string option"

definition OpRecord_init :: "string \<Rightarrow> addr list \<Rightarrow> OpRecord" where
  "OpRecord_init n ins =
     \<lparr>rec_op_name = n, rec_inputs = ins, rec_output = None, rec_status = Started,
      rec_error = None\<rparr>"

definition complete :: "OpRecord \<Rightarrow> addr \<Rightarrow> OpRecord" where
  "complete r out = r\<lparr>rec_output := Some out, rec_status := Completed\<rparr>"

definition fail :: "OpRecord \<Rightarrow> string \<Rightarrow> OpRecord" where
  "fail r e = r\<lparr>rec_status := Failed, rec_error := Some e\<rparr>"

record Logbook =
  lb_name :: string
  op_records :: "OpRecord list"
  bubbles :: "addr list"

definition Logbook_init :: "string \<Rightarrow> Logbook" where
  "Logbook_init n = \<lparr>lb_name = n, op_records = [], bubbles = []\<rparr>"

definition Logbook_record ::
  "Logbook \<Rightarrow> addr option \<Rightarrow> string option \<Rightarrow> addr list option \<Rightarrow> string option \<Rightarrow> exn + Logbook" where
  "Logbook_record L bubble op_name ins error =
     (case op_name of
        Some n \<Rightarrow>
          (case ins of
             None \<Rightarrow> Inl (ValueError ''inputs is required when op_name is provided'')
           | Some xs \<Rightarrow>
               (case bubble of
                  Some b \<Rightarrow>
                    Inr (L\<lparr>bubbles := bubbles L @ [b],
                           op_records := op_records L @ [complete (OpRecord_init n xs) b]\<rparr>)
                | None \<Rightarrow>
                    (case error of
                       Some e \<Rightarrow>
                         Inr (L\<lparr>op_records := op_records L @ [fail (OpRecord_init n xs) e]\<rparr>)
                     | None \<Rightarrow>
                         Inl (ValueError
                           ''Either bubble or error must be provided for Op execution''))))
      | None \<Rightarrow>
          (case bubble of
             Some b \<Rightarrow> Inr (L\<lparr>bubbles := bubbles L @ [b]\<rparr>)
           | None \<Rightarrow> Inl (ValueError ''Either bubble or op_name must be provided'')))"

section \<open>Running an Op (Op.__call__)\<close>

text \<open>
  The inputs of \<open>__call__\<close> are States, as its signature says. The logbook is an optional
  argument; the updated logbook is returned with the result. An exception raised inside
  the \<open>try\<close> block, by \<open>OpFunction.apply\<close> or while the outputs are recorded, reaches
  the handler, which records the failure and raises again.
\<close>

fun record_outputs :: "Logbook \<Rightarrow> string \<Rightarrow> addr list \<Rightarrow> addr list \<Rightarrow> exn option \<times> Logbook" where
  "record_outputs L n ins [] = (None, L)"
| "record_outputs L n ins (out # outs) =
     (case Logbook_record L (Some out) (Some n) (Some ins) None of
        Inl e \<Rightarrow> (Some e, L)
      | Inr L' \<Rightarrow> record_outputs L' n ins outs)"

definition record_failure :: "Logbook option \<Rightarrow> string \<Rightarrow> addr list \<Rightarrow> exn \<Rightarrow> exn \<times> Logbook option" where
  "record_failure lb n ins e =
     (case lb of
        None \<Rightarrow> (e, None)
      | Some L \<Rightarrow>
          (case Logbook_record L None (Some n) (Some ins) (Some (str_exn e)) of
             Inl e' \<Rightarrow> (e', Some L)
           | Inr L' \<Rightarrow> (e, Some L')))"

definition Op_call ::
  "Op \<Rightarrow> forward \<Rightarrow> addr list \<Rightarrow> Logbook option \<Rightarrow> heap \<Rightarrow> (exn + result) \<times> heap \<times> Logbook option" where
  "Op_call c fwd states lb h =
     (case OpFunction_apply c fwd (map VState states) h of
        (Inl e, h') \<Rightarrow>
          (case record_failure lb (name c) states e of (e', lb') \<Rightarrow> (Inl e', h', lb'))
      | (Inr res, h') \<Rightarrow>
          (case lb of
             None \<Rightarrow> (Inr res, h', None)
           | Some L \<Rightarrow>
               (case record_outputs L (name c) states
                       (case res of Multiple rs \<Rightarrow> rs | Single a \<Rightarrow> [a]) of
                  (None, L') \<Rightarrow> (Inr res, h', Some L')
                | (Some e, L') \<Rightarrow>
                    (case record_failure (Some L') (name c) states e of
                       (e', lb') \<Rightarrow> (Inl e', h', lb')))))"

section \<open>The pointer walk (State.backward)\<close>

text \<open>
  A reference in Python always denotes an object; \<open>deref\<close> reads the heap and gives an
  empty placeholder for an address that is not allocated. \<open>build_tree\<close> is the inner
  function of \<open>backward\<close>. Its \<open>visited\<close> set is one mutable object, handed on
  unchanged to every recursive call, so the model returns the set with the result and
  threads it through the loop over the inputs. Next to the text, the walk returns one
  event for each call: \<open>Rendered depth a\<close> for a node printed normally and
  \<open>Cut depth a\<close> for the marker line. \<open>build_tree\<close> is the walk that never
  runs out of interpreter frames; \<open>build_tree_frames\<close> below is the walk with the
  frame limit, which returns the same whenever it returns.
\<close>

definition no_object :: State where
  "no_object =
     \<lparr>payload = Payload [] [], creator_op = None, inputs = [], can_trace = True,
      note_str = [], bubble_id = [], is_origin_attr = None\<rparr>"

definition deref :: "heap \<Rightarrow> addr \<Rightarrow> State" where
  "deref h a = (if a < length h then h ! a else no_object)"

datatype bevent = Rendered nat addr | Cut nat addr

definition indent :: "nat \<Rightarrow> string" where
  "indent depth = concat (replicate depth ''  '')"

definition cut_line :: "State \<Rightarrow> nat \<Rightarrow> string" where
  "cut_line s depth = indent depth @ cycle_sym @ '' '' @ bubble_id s @ txt_cycle_or_depth"

definition render_current :: "State \<Rightarrow> nat \<Rightarrow> string" where
  "render_current s depth =
     (let payload_type = payload_type (payload s);
          creator_info =
            (case creator_op s of Some c \<Rightarrow> txt_arrow @ class_name c | None \<Rightarrow> txt_original);
          current =
            indent depth @ bubble_sym @ '' '' @ bubble_id s @ '': '' @ payload_type @ creator_info
      in if note_str s \<noteq> [] then current @ '' | '' @ note_str s else current)"

definition too_deep :: "int option \<Rightarrow> nat \<Rightarrow> bool" where
  "too_deep max_depth depth = (case max_depth of None \<Rightarrow> False | Some k \<Rightarrow> int depth > k)"

definition newline :: string where
  "newline = [CHR 0x0A]"

function build_tree ::
    "heap \<Rightarrow> int option \<Rightarrow> addr \<Rightarrow> nat \<Rightarrow> addr set \<Rightarrow> string \<times> bevent list \<times> addr set"
  and build_inputs ::
    "heap \<Rightarrow> int option \<Rightarrow> addr list \<Rightarrow> nat \<Rightarrow> addr set \<Rightarrow> string list \<times> bevent list \<times> addr set"
where
  "build_tree h max_depth a depth visited =
     (if a \<in> visited \<or> too_deep max_depth depth
      then (cut_line (deref h a) depth, [Cut depth a], visited)
      else if inputs (deref h a) \<noteq> []
      then (case build_inputs h max_depth (inputs (deref h a)) (depth + 1) (insert a visited) of
              (rs, evs, visited') \<Rightarrow>
                (join newline (render_current (deref h a) depth # rs),
                 Rendered depth a # evs, visited'))
      else (render_current (deref h a) depth, [Rendered depth a], insert a visited))"
| "build_inputs h max_depth [] depth visited = ([], [], visited)"
| "build_inputs h max_depth (x # xs) depth visited =
     (case build_tree h max_depth x depth visited of
        (t, evs1, visited1) \<Rightarrow>
          (case build_inputs h max_depth xs depth visited1 of
             (ts, evs2, visited2) \<Rightarrow> (t # ts, evs1 @ evs2, visited2)))"
  by pat_completeness auto

text \<open>
  The walk terminates because every call that recurses adds a new allocated address to
  \<open>visited\<close>, and a call never removes one.
\<close>

lemma build_mono:
  "build_tree_build_inputs_dom (Inl (h, md, a, d, vis)) \<Longrightarrow>
     build_tree h md a d vis = (t, ev, vis') \<Longrightarrow> vis \<subseteq> vis'"
  "build_tree_build_inputs_dom (Inr (h, md, xs, d, vis)) \<Longrightarrow>
     build_inputs h md xs d vis = (ts, evs, vis'') \<Longrightarrow> vis \<subseteq> vis''"
proof (induction arbitrary: t ev vis' and ts evs vis'' rule: build_tree_build_inputs.pinduct)
  case (1 h max_depth a depth visited)
  from "1.prems" "1.IH" show ?case
    by (auto simp: build_tree.psimps[OF "1.hyps"] split: prod.splits if_splits)
next
  case (2 h max_depth depth visited)
  then show ?case by (simp add: build_inputs.psimps)
next
  case (3 h max_depth x xs depth visited)
  from "3.prems" "3.IH" show ?case
    by (auto simp: build_inputs.psimps(2)[OF "3.hyps"] split: prod.splits) blast
qed

definition unvisited :: "heap \<Rightarrow> addr set \<Rightarrow> nat" where
  "unvisited h vis = card ({..<length h} - vis)"

lemma unvisited_insert:
  "a < length h \<Longrightarrow> a \<notin> vis \<Longrightarrow> unvisited h (insert a vis) < unvisited h vis"
  unfolding unvisited_def by (intro psubset_card_mono) auto

lemma unvisited_mono: "vis \<subseteq> vis' \<Longrightarrow> unvisited h vis' \<le> unvisited h vis"
  unfolding unvisited_def by (intro card_mono) auto

lemma deref_inputs_valid: "inputs (deref h a) \<noteq> [] \<Longrightarrow> a < length h"
  by (auto simp: deref_def no_object_def split: if_splits)

lemma build_total: "All build_tree_build_inputs_dom"
proof (relation "measures
         [\<lambda>x. case x of Inl (h, md, a, d, vis) \<Rightarrow> unvisited h vis
                      | Inr (h, md, xs, d, vis) \<Rightarrow> unvisited h vis,
          \<lambda>x. case x of Inl (h, md, a, d, vis) \<Rightarrow> 0
                      | Inr (h, md, xs, d, vis) \<Rightarrow> Suc (length xs)]", goal_cases)
  case 1
  then show ?case by simp
next
  case (2 a visited max_depth depth h)
  then show ?case
    by (simp add: unvisited_insert deref_inputs_valid)
next
  case (3 h max_depth x xs depth visited)
  then show ?case by simp
next
  case (4 h max_depth x xs depth visited xa y xb ya)
  then have "build_tree h max_depth x depth visited = (xa, xb, ya)" by simp
  from build_mono(1)[OF 4(3) this] have "visited \<subseteq> ya" .
  from unvisited_mono[OF this, of h] show ?case by auto
qed

termination build_tree
  by (rule build_total)

declare build_tree.simps [simp del]

definition backward :: "heap \<Rightarrow> addr \<Rightarrow> int option \<Rightarrow> string" where
  "backward h self max_depth = fst (build_tree h max_depth self 0 {})"

definition backward_events :: "heap \<Rightarrow> addr \<Rightarrow> int option \<Rightarrow> bevent list" where
  "backward_events h self max_depth = fst (snd (build_tree h max_depth self 0 {}))"

section \<open>The ledger walk (Logbook.display)\<close>

text \<open>
  \<open>trace_tree\<close> is the inner function of \<open>display\<close>. It names nodes by their
  \<open>bubble_id\<close> and hands a copy of \<open>visited\<close> to every child, so the set is an
  ordinary argument. The test \<open>count and depth >= count\<close> is Python's truth test: it
  fails for \<open>None\<close> and for \<open>0\<close>. The loop over \<open>enumerate(inputs)\<close> is
  \<open>trace_inputs\<close>, where the last input is the one with nothing after it. The walk
  returns the text and one event for each call. \<open>trace_tree\<close> is the walk that never
  runs out of interpreter frames; \<open>trace_tree_frames\<close> below is the walk with the
  frame limit.
\<close>

datatype tevent = OpLine nat addr | OriginLine nat addr | CycleMark nat addr | DepthMark nat addr

definition producing_record :: "heap \<Rightarrow> OpRecord list \<Rightarrow> addr \<Rightarrow> OpRecord option" where
  "producing_record h rs a =
     find (\<lambda>r. case rec_output r of
                  None \<Rightarrow> False
                | Some out \<Rightarrow> bubble_id (deref h out) = bubble_id (deref h a)) rs"

definition limit_reached :: "int option \<Rightarrow> nat \<Rightarrow> bool" where
  "limit_reached count depth =
     (case count of None \<Rightarrow> False | Some k \<Rightarrow> k \<noteq> 0 \<and> int depth \<ge> k)"

definition depth_marker :: "int option \<Rightarrow> string" where
  "depth_marker count =
     cycle_sym @ '' '' @ txt_depth_limit
       @ (case count of Some k \<Rightarrow> str_int k | None \<Rightarrow> ''None'') @ '')''"

definition cycle_marker :: "State \<Rightarrow> string" where
  "cycle_marker bubble = cycle_sym @ '' '' @ note_str bubble @ txt_cycle_ref"

definition op_line :: "OpRecord \<Rightarrow> State \<Rightarrow> string" where
  "op_line r bubble =
     brain_sym @ '' '' @ rec_op_name r @ '' -> '' @ bubble_sym @ '' '' @ note_str bubble"

definition origin_line :: "State \<Rightarrow> string" where
  "origin_line bubble = bubble_sym @ '' Origin: '' @ note_str bubble"

definition child_prefix :: "string \<Rightarrow> bool \<Rightarrow> string" where
  "child_prefix prefix is_last = prefix @ (if is_last then ''    '' else pre_bar)"

definition connector :: "bool \<Rightarrow> string" where
  "connector is_last = (if is_last then conn_last else conn_mid)"

definition child_entry :: "string \<Rightarrow> bool \<Rightarrow> string \<Rightarrow> string" where
  "child_entry prefix is_last child_result =
     newline @ prefix @ connector is_last @ child_result"

function trace_tree ::
    "heap \<Rightarrow> OpRecord list \<Rightarrow> int option \<Rightarrow> addr \<Rightarrow> nat \<Rightarrow> string set \<Rightarrow> string
       \<Rightarrow> string \<times> tevent list"
  and trace_inputs ::
    "heap \<Rightarrow> OpRecord list \<Rightarrow> int option \<Rightarrow> addr list \<Rightarrow> nat \<Rightarrow> string set \<Rightarrow> string
       \<Rightarrow> string \<times> tevent list"
where
  "trace_tree h rs count a depth visited prefix =
     (if limit_reached count depth
      then (depth_marker count, [DepthMark depth a])
      else if bubble_id (deref h a) \<in> visited
      then (cycle_marker (deref h a), [CycleMark depth a])
      else (case producing_record h rs a of
              Some r \<Rightarrow>
                (case trace_inputs h rs count (rec_inputs r) (depth + 1)
                        (insert (bubble_id (deref h a)) visited) prefix of
                   (t, evs) \<Rightarrow> (op_line r (deref h a) @ t, OpLine depth a # evs))
            | None \<Rightarrow> (origin_line (deref h a), [OriginLine depth a])))"
| "trace_inputs h rs count [] depth visited prefix = ([], [])"
| "trace_inputs h rs count (x # xs) depth visited prefix =
     (case trace_tree h rs count x depth visited (child_prefix prefix (xs = [])) of
        (child_result, evs1) \<Rightarrow>
          (case trace_inputs h rs count xs depth visited prefix of
             (t, evs2) \<Rightarrow> (child_entry prefix (xs = []) child_result @ t, evs1 @ evs2)))"
  by pat_completeness auto

text \<open>
  The walk terminates because every call that recurses adds to \<open>visited\<close> an identifier
  of the heap that was not in it.
\<close>

definition all_ids :: "heap \<Rightarrow> string set" where
  "all_ids h = insert (bubble_id no_object) (bubble_id ` set h)"

definition unseen :: "heap \<Rightarrow> string set \<Rightarrow> nat" where
  "unseen h vis = card (all_ids h - vis)"

lemma deref_in_all_ids: "bubble_id (deref h a) \<in> all_ids h"
  unfolding all_ids_def deref_def by simp

lemma finite_all_ids: "finite (all_ids h)"
  unfolding all_ids_def by simp

lemma unseen_insert:
  assumes "bubble_id (deref h a) \<notin> vis"
  shows "unseen h (insert (bubble_id (deref h a)) vis) < unseen h vis"
proof -
  have "all_ids h - insert (bubble_id (deref h a)) vis \<subset> all_ids h - vis"
    using assms deref_in_all_ids[of h a] by blast
  moreover have "finite (all_ids h - vis)"
    using finite_all_ids by blast
  ultimately show ?thesis
    unfolding unseen_def by (rule psubset_card_mono[rotated])
qed

lemma trace_total: "All trace_tree_trace_inputs_dom"
  by (relation "measures
         [\<lambda>x. case x of Inl (h, rs, c, a, d, vis, p) \<Rightarrow> unseen h vis
                      | Inr (h, rs, c, xs, d, vis, p) \<Rightarrow> unseen h vis,
          \<lambda>x. case x of Inl (h, rs, c, a, d, vis, p) \<Rightarrow> 0
                      | Inr (h, rs, c, xs, d, vis, p) \<Rightarrow> Suc (length xs)]")
     (auto simp: unseen_insert)

termination trace_tree
  by (rule trace_total)

declare trace_tree.simps [simp del]

text \<open>
  \<open>display\<close> prints a header and the tree, or one line when there is nothing to start
  from; the model returns the printed lines.
\<close>

definition start_bubble :: "Logbook \<Rightarrow> addr option \<Rightarrow> addr option" where
  "start_bubble L from_bubble =
     (case from_bubble of
        Some b \<Rightarrow> Some b
      | None \<Rightarrow> if bubbles L = [] then None else Some (last (bubbles L)))"

definition display :: "Logbook \<Rightarrow> heap \<Rightarrow> addr option \<Rightarrow> int option \<Rightarrow> string list" where
  "display L h from_bubble count =
     (case start_bubble L from_bubble of
        None \<Rightarrow>
          [memo_sym @ '' Logbook '' @ [CHR 0x27] @ lb_name L @ [CHR 0x27] @ '': ''
             @ txt_no_records]
      | Some b \<Rightarrow>
          [memo_sym @ '' Logbook '' @ [CHR 0x27] @ lb_name L @ [CHR 0x27] @ txt_trace_header,
           fst (trace_tree h (op_records L) count b 0 {} [])])"

definition display_events :: "Logbook \<Rightarrow> heap \<Rightarrow> addr option \<Rightarrow> int option \<Rightarrow> tevent list" where
  "display_events L h from_bubble count =
     (case start_bubble L from_bubble of
        None \<Rightarrow> []
      | Some b \<Rightarrow> snd (trace_tree h (op_records L) count b 0 {} []))"

section \<open>The interpreter's frame limit\<close>

text \<open>
  Both walks are recursive Python functions, and every recursive call takes one interpreter
  frame. When no frame is left the call raises \<open>RecursionError\<close>, which neither walk
  catches. \<open>build_tree_frames\<close> and \<open>trace_tree_frames\<close> are the two inner
  functions with this limit: their first argument is the number of frames that are still
  available when the function is called. The loop over the inputs runs in the frame of
  its caller. In \<open>trace_tree\<close> the search for the producing record is a generator
  expression, which runs in a frame of its own. \<open>display\<close> prints the header before it
  builds the tree, so the header is printed also when the walk raises.
\<close>

definition recursion_error :: exn where
  "recursion_error = RecursionError ''maximum recursion depth exceeded''"

fun build_tree_frames ::
    "nat \<Rightarrow> heap \<Rightarrow> int option \<Rightarrow> addr \<Rightarrow> nat \<Rightarrow> addr set
       \<Rightarrow> exn + string \<times> bevent list \<times> addr set"
  and build_inputs_frames ::
    "nat \<Rightarrow> heap \<Rightarrow> int option \<Rightarrow> addr list \<Rightarrow> nat \<Rightarrow> addr set
       \<Rightarrow> exn + string list \<times> bevent list \<times> addr set"
where
  "build_tree_frames 0 h max_depth a depth visited = Inl recursion_error"
| "build_tree_frames (Suc frames) h max_depth a depth visited =
     (if a \<in> visited \<or> too_deep max_depth depth
      then Inr (cut_line (deref h a) depth, [Cut depth a], visited)
      else if inputs (deref h a) \<noteq> []
      then (case build_inputs_frames frames h max_depth (inputs (deref h a)) (depth + 1)
                   (insert a visited) of
              Inl e \<Rightarrow> Inl e
            | Inr (rs, evs, visited') \<Rightarrow>
                Inr (join newline (render_current (deref h a) depth # rs),
                     Rendered depth a # evs, visited'))
      else Inr (render_current (deref h a) depth, [Rendered depth a], insert a visited))"
| "build_inputs_frames frames h max_depth [] depth visited = Inr ([], [], visited)"
| "build_inputs_frames frames h max_depth (x # xs) depth visited =
     (case build_tree_frames frames h max_depth x depth visited of
        Inl e \<Rightarrow> Inl e
      | Inr (t, evs1, visited1) \<Rightarrow>
          (case build_inputs_frames frames h max_depth xs depth visited1 of
             Inl e \<Rightarrow> Inl e
           | Inr (ts, evs2, visited2) \<Rightarrow> Inr (t # ts, evs1 @ evs2, visited2)))"

fun trace_tree_frames ::
    "nat \<Rightarrow> heap \<Rightarrow> OpRecord list \<Rightarrow> int option \<Rightarrow> addr \<Rightarrow> nat \<Rightarrow> string set \<Rightarrow> string
       \<Rightarrow> exn + string \<times> tevent list"
  and trace_inputs_frames ::
    "nat \<Rightarrow> heap \<Rightarrow> OpRecord list \<Rightarrow> int option \<Rightarrow> addr list \<Rightarrow> nat \<Rightarrow> string set \<Rightarrow> string
       \<Rightarrow> exn + string \<times> tevent list"
where
  "trace_tree_frames 0 h rs count a depth visited prefix = Inl recursion_error"
| "trace_tree_frames (Suc frames) h rs count a depth visited prefix =
     (if limit_reached count depth
      then Inr (depth_marker count, [DepthMark depth a])
      else if bubble_id (deref h a) \<in> visited
      then Inr (cycle_marker (deref h a), [CycleMark depth a])
      else if frames = 0
      then Inl recursion_error
      else (case producing_record h rs a of
              Some r \<Rightarrow>
                (case trace_inputs_frames frames h rs count (rec_inputs r) (depth + 1)
                        (insert (bubble_id (deref h a)) visited) prefix of
                   Inl e \<Rightarrow> Inl e
                 | Inr (t, evs) \<Rightarrow> Inr (op_line r (deref h a) @ t, OpLine depth a # evs))
            | None \<Rightarrow> Inr (origin_line (deref h a), [OriginLine depth a])))"
| "trace_inputs_frames frames h rs count [] depth visited prefix = Inr ([], [])"
| "trace_inputs_frames frames h rs count (x # xs) depth visited prefix =
     (case trace_tree_frames frames h rs count x depth visited (child_prefix prefix (xs = [])) of
        Inl e \<Rightarrow> Inl e
      | Inr (child_result, evs1) \<Rightarrow>
          (case trace_inputs_frames frames h rs count xs depth visited prefix of
             Inl e \<Rightarrow> Inl e
           | Inr (t, evs2) \<Rightarrow>
               Inr (child_entry prefix (xs = []) child_result @ t, evs1 @ evs2)))"

definition backward_frames :: "nat \<Rightarrow> heap \<Rightarrow> addr \<Rightarrow> int option \<Rightarrow> exn + string" where
  "backward_frames frames h self max_depth =
     (case build_tree_frames frames h max_depth self 0 {} of
        Inl e \<Rightarrow> Inl e
      | Inr (t, evs, visited) \<Rightarrow> Inr t)"

definition display_frames ::
  "nat \<Rightarrow> Logbook \<Rightarrow> heap \<Rightarrow> addr option \<Rightarrow> int option \<Rightarrow> string list \<times> exn option" where
  "display_frames frames L h from_bubble count =
     (case start_bubble L from_bubble of
        None \<Rightarrow>
          ([memo_sym @ '' Logbook '' @ [CHR 0x27] @ lb_name L @ [CHR 0x27] @ '': ''
              @ txt_no_records], None)
      | Some b \<Rightarrow>
          (case trace_tree_frames frames h (op_records L) count b 0 {} [] of
             Inl e \<Rightarrow>
               ([memo_sym @ '' Logbook '' @ [CHR 0x27] @ lb_name L @ [CHR 0x27]
                   @ txt_trace_header], Some e)
           | Inr (t, evs) \<Rightarrow>
               ([memo_sym @ '' Logbook '' @ [CHR 0x27] @ lb_name L @ [CHR 0x27]
                   @ txt_trace_header, t], None)))"

section \<open>Example objects\<close>

text \<open>
  Two operations, two kinds of node and two \<open>forward\<close> methods, one that returns a
  given value and one that raises a given exception, for the concrete runs below.
\<close>

definition op_gen :: Op where
  "op_gen = Op_init ''Generate'' None"

definition op_crit :: Op where
  "op_crit = Op_init ''Critique'' (Some ''review'')"

definition origin_state :: "string \<Rightarrow> string \<Rightarrow> State" where
  "origin_state bid nt =
     \<lparr>payload = Payload ''ResearchBriefPayload'' [], creator_op = None, inputs = [],
      can_trace = True, note_str = nt, bubble_id = bid, is_origin_attr = None\<rparr>"

definition derived_state :: "string \<Rightarrow> string \<Rightarrow> Op \<Rightarrow> addr list \<Rightarrow> State" where
  "derived_state bid nt c ins =
     (origin_state bid nt)\<lparr>creator_op := Some c, inputs := ins, is_origin_attr := Some False\<rparr>"

definition heap_two :: heap where
  "heap_two = [origin_state ''bubble_0'' ''A'', origin_state ''bubble_1'' ''B'']"

definition returns :: "pyval \<Rightarrow> forward" where
  "returns v = (\<lambda>ins h. (Inr v, h))"

definition raises :: "exn \<Rightarrow> forward" where
  "raises e = (\<lambda>ins h. (Inl e, h))"

text \<open>
  The equations that evaluate a concrete run of a walk, and those that spell out its text.
\<close>

lemmas run_simps =
  backward_def backward_events_def display_events_def start_bubble_def build_tree.simps
  trace_tree.simps too_deep_def limit_reached_def producing_record_def deref_def
  derived_state_def origin_state_def complete_def OpRecord_init_def


section \<open>Properties of the wiring algorithm\<close>

lemma stamp_length: "length (stamp c ins b h) = length h"
  by (simp add: stamp_def)

lemma stamp_other: "a \<noteq> b \<Longrightarrow> stamp c ins b h ! a = h ! a"
  by (simp add: stamp_def)

lemma stamp_keeps: "creator_op (h ! a) \<noteq> None \<Longrightarrow> stamp c ins b h ! a = h ! a"
  by (cases "a = b") (auto simp: stamp_def)

lemma stamp_fresh:
  "a < length h \<Longrightarrow> creator_op (h ! a) = None \<Longrightarrow>
     stamp c ins a h ! a = (h ! a)\<lparr>creator_op := Some c, inputs := ins, is_origin_attr := Some False\<rparr>"
  by (simp add: stamp_def)

lemma wire_length: "length (snd (wire c ins vs acc h)) = length h"
  by (induction c ins vs acc h rule: wire.induct) (simp_all add: stamp_length)

lemma wire_keeps: "creator_op (h ! a) \<noteq> None \<Longrightarrow> snd (wire c ins vs acc h) ! a = h ! a"
  by (induction c ins vs acc h rule: wire.induct) (simp_all add: stamp_keeps)

lemma wire_stamps:
  "fst (wire c ins vs acc h) = Inr rs \<Longrightarrow> VState a \<in> set vs \<Longrightarrow> a < length h \<Longrightarrow>
     creator_op (h ! a) = None \<Longrightarrow>
     snd (wire c ins vs acc h) ! a =
       (h ! a)\<lparr>creator_op := Some c, inputs := ins, is_origin_attr := Some False\<rparr>"
proof (induction c ins vs acc h rule: wire.induct)
  case (2 c ins b vs acc h)
  show ?case
  proof (cases "b = a")
    case True
    have "creator_op (stamp c ins a h ! a) \<noteq> None"
      using 2(4,5) by (simp add: stamp_fresh)
    from wire_keeps[OF this] show ?thesis
      using True 2(4,5) by (simp add: stamp_fresh)
  next
    case False
    then have "VState a \<in> set vs" using 2(3) by simp
    moreover have "stamp c ins b h ! a = h ! a" using False by (simp add: stamp_other)
    ultimately show ?thesis
      using 2 by (simp add: stamp_length)
  qed
qed simp_all

lemma wire_result:
  "list_all is_State vs \<Longrightarrow> fst (wire c ins vs acc h) = Inr (acc @ map the_addr vs)"
  by (induction c ins vs acc h rule: wire.induct) simp_all

lemma find_not_State: "(find (\<lambda>v. \<not> is_State v) ins = None) = (\<forall>v \<in> set ins. is_State v)"
  by (auto simp: find_None_iff)

lemma apply_heap:
  assumes "\<forall>v \<in> set ins. is_State v" and "fwd ins h = (Inr out, h1)"
  shows "snd (OpFunction_apply c fwd ins h) = snd (wire c (map the_addr ins) (outputs_of out) [] h1)"
    and "fst (OpFunction_apply c fwd ins h) =
           (case fst (wire c (map the_addr ins) (outputs_of out) [] h1) of
              Inl e \<Rightarrow> Inl e | Inr rs \<Rightarrow> Inr (collapse rs))"
  using assms
  by (auto simp: OpFunction_apply_def find_not_State[symmetric] split: prod.splits sum.splits)

lemma outputs_of_cases: "outputs_of (VList vs) = vs" "outputs_of (VState a) = [VState a]"
  by (simp_all add: outputs_of_def)

lemma all_State_map: "\<forall>v \<in> set vs. is_State v \<Longrightarrow> map VState (map the_addr vs) = vs"
proof (induction vs)
  case (Cons v vs)
  then show ?case by (cases v) simp_all
qed simp

text \<open>
  Claim C1. When the inputs are States and \<open>forward\<close> returns, a produced Node that
  already has a \<open>creator_op\<close> keeps its \<open>creator_op\<close> and its \<open>inputs\<close>; a
  produced Node without one is stamped, in a call that succeeds, with the invoking
  operation and the input sequence; and a second call of the wiring algorithm that
  produces the same Node again leaves the provenance of the first call in place.
\<close>

theorem stamping_idempotent:
  assumes valid: "\<forall>v \<in> set ins. is_State v"
    and fwd: "fwd ins h = (Inr out, h1)"
    and res: "OpFunction_apply c fwd ins h = (r, h')"
  shows "(VState a \<in> set (outputs_of out) \<and> creator_op (h1 ! a) \<noteq> None \<longrightarrow>
            creator_op (h' ! a) = creator_op (h1 ! a) \<and> inputs (h' ! a) = inputs (h1 ! a))
       \<and> (VState a \<in> set (outputs_of out) \<and> a < length h1 \<and> r = Inr res \<and>
            creator_op (h1 ! a) = None \<longrightarrow>
            creator_op (h' ! a) = Some c \<and> inputs (h' ! a) = map the_addr ins)
       \<and> (VState a \<in> set (outputs_of out) \<and> a < length h1 \<and> r = Inr res \<longrightarrow>
            (\<forall>c' fwd' ins' out'.
               (\<forall>v \<in> set ins'. is_State v) \<and> fwd' ins' h' = (Inr out', h') \<and>
               VState a \<in> set (outputs_of out') \<longrightarrow>
               creator_op (snd (OpFunction_apply c' fwd' ins' h') ! a) = creator_op (h' ! a) \<and>
               inputs (snd (OpFunction_apply c' fwd' ins' h') ! a) = inputs (h' ! a)))"
proof -
  let ?w = "wire c (map the_addr ins) (outputs_of out) [] h1"
  have h': "h' = snd ?w"
    using apply_heap(1)[where fwd=fwd and c=c, OF valid fwd] res by simp
  have r: "r = (case fst ?w of Inl e \<Rightarrow> Inl e | Inr rs \<Rightarrow> Inr (collapse rs))"
    using apply_heap(2)[where fwd=fwd and c=c, OF valid fwd] res by simp
  have keep: "creator_op (h1 ! a) \<noteq> None \<Longrightarrow> h' ! a = h1 ! a"
    unfolding h' by (rule wire_keeps)
  have fresh: "creator_op (h' ! a) = Some c \<and> inputs (h' ! a) = map the_addr ins"
    if "VState a \<in> set (outputs_of out)" "a < length h1" "r = Inr res" "creator_op (h1 ! a) = None"
  proof -
    from that(3) r obtain rs where "fst ?w = Inr rs"
      by (cases "fst ?w") auto
    from wire_stamps[OF this that(1,2,4)] show ?thesis
      unfolding h' by simp
  qed
  have set_after: "creator_op (h' ! a) \<noteq> None"
    if "VState a \<in> set (outputs_of out)" "a < length h1" "r = Inr res"
    using keep fresh[OF that] by (cases "creator_op (h1 ! a)") auto
  have twice: "creator_op (snd (OpFunction_apply c' fwd' ins' h') ! a) = creator_op (h' ! a) \<and>
               inputs (snd (OpFunction_apply c' fwd' ins' h') ! a) = inputs (h' ! a)"
    if "VState a \<in> set (outputs_of out)" "a < length h1" "r = Inr res"
       "\<forall>v \<in> set ins'. is_State v" "fwd' ins' h' = (Inr out', h')"
    for c' and fwd' :: forward and ins' out'
    using apply_heap(1)[where fwd=fwd' and c=c', OF that(4,5)] wire_keeps[OF set_after[OF that(1,2,3)]]
    by simp
  have p1: "VState a \<in> set (outputs_of out) \<and> creator_op (h1 ! a) \<noteq> None \<longrightarrow>
            creator_op (h' ! a) = creator_op (h1 ! a) \<and> inputs (h' ! a) = inputs (h1 ! a)"
    using keep by simp
  have p2: "VState a \<in> set (outputs_of out) \<and> a < length h1 \<and> r = Inr res \<and>
            creator_op (h1 ! a) = None \<longrightarrow>
            creator_op (h' ! a) = Some c \<and> inputs (h' ! a) = map the_addr ins"
    using fresh by simp
  have p3: "VState a \<in> set (outputs_of out) \<and> a < length h1 \<and> r = Inr res \<longrightarrow>
            (\<forall>c' fwd' ins' out'.
               (\<forall>v \<in> set ins'. is_State v) \<and> fwd' ins' h' = (Inr out', h') \<and>
               VState a \<in> set (outputs_of out') \<longrightarrow>
               creator_op (snd (OpFunction_apply c' fwd' ins' h') ! a) = creator_op (h' ! a) \<and>
               inputs (snd (OpFunction_apply c' fwd' ins' h') ! a) = inputs (h' ! a))"
  proof (intro impI allI)
    fix c' and fwd' :: forward and ins' out'
    assume a1: "VState a \<in> set (outputs_of out) \<and> a < length h1 \<and> r = Inr res"
      and a2: "(\<forall>v \<in> set ins'. is_State v) \<and> fwd' ins' h' = (Inr out', h') \<and>
               VState a \<in> set (outputs_of out')"
    from a1 a2 show "creator_op (snd (OpFunction_apply c' fwd' ins' h') ! a) = creator_op (h' ! a) \<and>
               inputs (snd (OpFunction_apply c' fwd' ins' h') ! a) = inputs (h' ! a)"
      by (intro twice[where fwd'=fwd' and out'=out']) simp_all
  qed
  from p1 p2 p3 show ?thesis by (intro conjI)
qed

lemma apply_two_fresh:
  "OpFunction_apply op_gen (returns (VState 1)) [VState 0] heap_two =
     (Inr (Single 1),
      [origin_state ''bubble_0'' ''A'', derived_state ''bubble_1'' ''B'' op_gen [0]])"
  by (simp add: OpFunction_apply_def returns_def outputs_of_def stamp_def heap_two_def
      collapse_def derived_state_def origin_state_def)

theorem stamping_idempotent_witness:
  "creator_op (snd (OpFunction_apply op_gen (returns (VState 1)) [VState 0] heap_two) ! 1) = Some op_gen
   \<and> inputs (snd (OpFunction_apply op_gen (returns (VState 1)) [VState 0] heap_two) ! 1) = [0]
   \<and> creator_op (snd (OpFunction_apply op_crit (returns (VState 1)) [VState 1]
        (snd (OpFunction_apply op_gen (returns (VState 1)) [VState 0] heap_two))) ! 1) = Some op_gen
   \<and> inputs (snd (OpFunction_apply op_crit (returns (VState 1)) [VState 1]
        (snd (OpFunction_apply op_gen (returns (VState 1)) [VState 0] heap_two))) ! 1) = [0]"
proof -
  let ?h' = "snd (OpFunction_apply op_gen (returns (VState 1)) [VState 0] heap_two)"
  have valid: "\<forall>v \<in> set [VState 0]. is_State v" by simp
  have fwd: "returns (VState 1) [VState 0] heap_two = (Inr (VState 1), heap_two)"
    by (simp add: returns_def)
  have res: "OpFunction_apply op_gen (returns (VState 1)) [VState 0] heap_two = (Inr (Single 1), ?h')"
    using apply_two_fresh by simp
  have pre: "VState 1 \<in> set (outputs_of (VState 1))" "(1::nat) < length heap_two"
    "creator_op (heap_two ! 1) = None"
    by (simp_all add: outputs_of_def heap_two_def origin_state_def)
  have valid': "\<forall>v \<in> set [VState 1]. is_State v" by simp
  have fwd': "returns (VState 1) [VState 1] ?h' = (Inr (VState 1), ?h')"
    by (simp add: returns_def)
  from stamping_idempotent[where fwd="returns (VState 1)", OF valid fwd res, of 1 "Single 1"]
    pre valid' fwd'
  show ?thesis by simp
qed

text \<open>
  Claim C2. When the inputs are States, \<open>forward\<close> returns and every produced value is
  a State, the call returns the Node itself if exactly one was produced, and the sequence
  of the produced Nodes, in the order of production, if more than one was.
\<close>

theorem singleton_collapse:
  assumes valid: "\<forall>v \<in> set ins. is_State v"
    and fwd: "fwd ins h = (Inr out, h1)"
    and outs: "\<forall>v \<in> set (outputs_of out). is_State v"
  shows "\<exists>nodes. outputs_of out = map VState nodes \<and>
           (length nodes = 1 \<longrightarrow>
              fst (OpFunction_apply c fwd ins h) = Inr (Single (hd nodes))) \<and>
           (1 < length nodes \<longrightarrow>
              fst (OpFunction_apply c fwd ins h) = Inr (Multiple nodes))"
proof -
  let ?nodes = "map the_addr (outputs_of out)"
  have "list_all is_State (outputs_of out)"
    using outs by (simp add: list_all_iff)
  from wire_result[OF this, of c "map the_addr ins" "[]" h1]
  have "fst (OpFunction_apply c fwd ins h) = Inr (collapse ?nodes)"
    using apply_heap(2)[where fwd=fwd and c=c, OF valid fwd] by simp
  moreover have "outputs_of out = map VState ?nodes"
    using all_State_map[OF outs] by simp
  moreover have "length ?nodes = 1 \<Longrightarrow> collapse ?nodes = Single (hd ?nodes)"
    by (cases ?nodes) (simp_all add: collapse_def)
  moreover have "1 < length ?nodes \<Longrightarrow> collapse ?nodes = Multiple ?nodes"
    by (simp add: collapse_def)
  ultimately show ?thesis by metis
qed

theorem singleton_collapse_witness:
  "fst (OpFunction_apply op_gen (returns (VState 1)) [VState 0] heap_two) = Inr (Single 1)
   \<and> fst (OpFunction_apply op_gen (returns (VList [VState 1, VState 0])) [VState 0] heap_two)
       = Inr (Multiple [1, 0])"
proof -
  have valid: "\<forall>v \<in> set [VState 0]. is_State v" by simp
  have f1: "returns (VState 1) [VState 0] heap_two = (Inr (VState 1), heap_two)"
    and f2: "returns (VList [VState 1, VState 0]) [VState 0] heap_two
               = (Inr (VList [VState 1, VState 0]), heap_two)"
    by (simp_all add: returns_def)
  have o1: "\<forall>v \<in> set (outputs_of (VState 1)). is_State v"
    and o2: "\<forall>v \<in> set (outputs_of (VList [VState 1, VState 0])). is_State v"
    by (simp_all add: outputs_of_def)
  from singleton_collapse[where fwd="returns (VState 1)" and c=op_gen, OF valid f1 o1]
  have "fst (OpFunction_apply op_gen (returns (VState 1)) [VState 0] heap_two) = Inr (Single 1)"
    by (auto simp: outputs_of_def)
  moreover
  from singleton_collapse[where fwd="returns (VList [VState 1, VState 0])" and c=op_gen,
      OF valid f2 o2]
  have "fst (OpFunction_apply op_gen (returns (VList [VState 1, VState 0])) [VState 0] heap_two)
       = Inr (Multiple [1, 0])"
    by (auto simp: outputs_of_def)
  ultimately show ?thesis by simp
qed

section \<open>The origin invariant\<close>










section \<open>State.is_origin and State.get_source\<close>

text \<open>
  Claim C4. Before the wiring algorithm has touched it, \<open>is_origin()\<close> of a Node
  returns whether \<open>creator_op\<close> is absent. Once \<open>OpFunction.apply\<close> has stamped the
  Node, the instance attribute \<open>is_origin = False\<close> hides the method, and both
  \<open>is_origin()\<close> and \<open>get_source()\<close> raise \<open>TypeError\<close>.
\<close>

theorem is_origin_after_stamping:
  "is_origin (heap_two ! 1) = Inr True
   \<and> is_origin (snd (OpFunction_apply op_gen (returns (VState 1)) [VState 0] heap_two) ! 1)
       = Inl (TypeError ([CHR 0x27] @ ''bool'' @ [CHR 0x27] @ '' object is not callable''))
   \<and> get_source (snd (OpFunction_apply op_gen (returns (VState 1)) [VState 0] heap_two) ! 1)
       = Inl (TypeError ([CHR 0x27] @ ''bool'' @ [CHR 0x27] @ '' object is not callable''))"
proof -
  have "snd (OpFunction_apply op_gen (returns (VState 1)) [VState 0] heap_two) ! 1
          = derived_state ''bubble_1'' ''B'' op_gen [0]"
    using apply_two_fresh by simp
  then show ?thesis
    by (simp add: is_origin_def get_source_def heap_two_def origin_state_def derived_state_def)
qed

section \<open>Failure semantics of the wiring algorithm\<close>

lemma wire_untouched: "VState a \<notin> set vs \<Longrightarrow> snd (wire c ins vs acc h) ! a = h ! a"
  by (induction c ins vs acc h rule: wire.induct) (auto simp: stamp_other)

lemma wire_bad:
  "\<exists>v \<in> set vs. \<not> is_State v \<Longrightarrow>
     (\<exists>msg. fst (wire c ins vs acc h) = Inl (TypeError msg)) \<and>
     snd (wire c ins vs acc h) = snd (wire c ins (takeWhile is_State vs) acc h)"
  by (induction c ins vs acc h rule: wire.induct) simp_all


lemma all_VState: "\<forall>v \<in> set (map VState states). is_State v"
  by simp

lemma Op_call_failure:
  assumes "OpFunction_apply c fwd (map VState states) h = (Inl e, h')"
  shows "Op_call c fwd states (Some L) h =
           (Inl e, h',
            Some (L\<lparr>op_records := op_records L @
              [\<lparr>rec_op_name = name c, rec_inputs = states, rec_output = None,
                rec_status = Failed, rec_error = Some (str_exn e)\<rparr>]\<rparr>))"
    and "Op_call c fwd states None h = (Inl e, h', None)"
  using assms
  by (simp_all add: Op_call_def record_failure_def Logbook_record_def fail_def OpRecord_init_def)

text \<open>
  Claim C5, amended. When \<open>forward\<close> returns and some produced value is not a State,
  the call fails with \<open>TypeError\<close>; every Node that is not among the values produced
  before the first value that is not a State is left as \<open>forward\<close> left it; and
  \<open>Op.__call__\<close> with a Logbook appends exactly one record, with status failed and no
  output, and no bubble.
\<close>

theorem failed_validation:
  assumes fwd: "fwd (map VState states) h = (Inr out, h1)"
    and bad: "\<exists>v \<in> set (outputs_of out). \<not> is_State v"
  shows "\<exists>msg h'.
           OpFunction_apply c fwd (map VState states) h = (Inl (TypeError msg), h')
         \<and> (\<forall>a. VState a \<notin> set (takeWhile is_State (outputs_of out)) \<longrightarrow> h' ! a = h1 ! a)
         \<and> Op_call c fwd states None h = (Inl (TypeError msg), h', None)
         \<and> Op_call c fwd states (Some L) h =
             (Inl (TypeError msg), h',
              Some (L\<lparr>op_records := op_records L @
                [\<lparr>rec_op_name = name c, rec_inputs = states, rec_output = None,
                  rec_status = Failed, rec_error = Some msg\<rparr>]\<rparr>))"
proof -
  let ?w = "wire c (map the_addr (map VState states)) (outputs_of out) [] h1"
  let ?h' = "snd (OpFunction_apply c fwd (map VState states) h)"
  from wire_bad[OF bad, of c "map the_addr (map VState states)" "[]" h1]
  obtain msg where msg: "fst ?w = Inl (TypeError msg)"
    and pre: "snd ?w = snd (wire c (map the_addr (map VState states))
                (takeWhile is_State (outputs_of out)) [] h1)"
    by blast
  have h': "?h' = snd ?w"
    using apply_heap(1)[where fwd=fwd and c=c, OF all_VState fwd] by simp
  have "fst (OpFunction_apply c fwd (map VState states) h) = Inl (TypeError msg)"
    using apply_heap(2)[where fwd=fwd and c=c, OF all_VState fwd] msg by simp
  then have res: "OpFunction_apply c fwd (map VState states) h = (Inl (TypeError msg), ?h')"
    by (simp add: prod_eq_iff)
  have untouched: "\<forall>a. VState a \<notin> set (takeWhile is_State (outputs_of out)) \<longrightarrow> ?h' ! a = h1 ! a"
    unfolding h' pre by (simp add: wire_untouched)
  from res untouched Op_call_failure[OF res] show ?thesis
    by (intro exI[of _ msg] exI[of _ ?h']) simp
qed

theorem failed_validation_witness:
  "returns (VList [VState 0, VObj ''int'', VState 1]) (map VState [0]) heap_two
     = (Inr (VList [VState 0, VObj ''int'', VState 1]), heap_two)
   \<and> (\<exists>v \<in> set (outputs_of (VList [VState 0, VObj ''int'', VState 1])). \<not> is_State v)
   \<and> (\<exists>msg h'.
         Op_call op_gen (returns (VList [VState 0, VObj ''int'', VState 1])) [0]
             (Some (Logbook_init ''lab'')) heap_two
           = (Inl (TypeError msg), h',
              Some \<lparr>lb_name = ''lab'',
                    op_records = [\<lparr>rec_op_name = ''Generate'', rec_inputs = [0],
                      rec_output = None, rec_status = Failed, rec_error = Some msg\<rparr>],
                    bubbles = []\<rparr>)
         \<and> h' ! 1 = heap_two ! 1)"
proof -
  have fwd: "returns (VList [VState 0, VObj ''int'', VState 1]) (map VState [0]) heap_two
     = (Inr (VList [VState 0, VObj ''int'', VState 1]), heap_two)"
    by (simp add: returns_def)
  have bad: "\<exists>v \<in> set (outputs_of (VList [VState 0, VObj ''int'', VState 1])). \<not> is_State v"
    by (simp add: outputs_of_def)
  from failed_validation[where fwd="returns (VList [VState 0, VObj ''int'', VState 1])"
      and c=op_gen and L="Logbook_init ''lab''", OF fwd bad]
  obtain msg h' where
    call: "Op_call op_gen (returns (VList [VState 0, VObj ''int'', VState 1])) [0]
             (Some (Logbook_init ''lab'')) heap_two
           = (Inl (TypeError msg), h',
              Some ((Logbook_init ''lab'')\<lparr>op_records := op_records (Logbook_init ''lab'') @
                [\<lparr>rec_op_name = name op_gen, rec_inputs = [0], rec_output = None,
                  rec_status = Failed, rec_error = Some msg\<rparr>]\<rparr>))"
    and keep: "\<forall>a. VState a \<notin> set (takeWhile is_State
                 (outputs_of (VList [VState 0, VObj ''int'', VState 1]))) \<longrightarrow> h' ! a = heap_two ! a"
    by blast
  from keep have "h' ! 1 = heap_two ! 1"
    by (simp add: outputs_of_def)
  with call fwd bad show ?thesis
    by (simp add: Logbook_init_def op_gen_def Op_init_def)
qed

text \<open>
  Claim C5 as stated fails: a Node produced before the value that is not a State has
  been stamped when the call fails.
\<close>

theorem partial_wiring_counterexample:
  "fst (OpFunction_apply op_gen (returns (VList [VState 1, VObj ''int''])) [VState 0] heap_two)
     = Inl (TypeError (''Op Generate output must be State, got '' @ class_repr ''int''))
   \<and> creator_op (heap_two ! 1) = None
   \<and> creator_op (snd (OpFunction_apply op_gen (returns (VList [VState 1, VObj ''int'']))
        [VState 0] heap_two) ! 1) = Some op_gen
   \<and> inputs (snd (OpFunction_apply op_gen (returns (VList [VState 1, VObj ''int'']))
        [VState 0] heap_two) ! 1) = [0]"
  by (simp add: OpFunction_apply_def returns_def outputs_of_def stamp_def heap_two_def
      origin_state_def op_gen_def Op_init_def)

section \<open>Logbook.record\<close>

text \<open>
  Claim C6, amended. With \<open>op_name\<close> and \<open>inputs\<close> given: when a bubble is given, a
  completed record with that output is appended and the bubble is appended to the bubble
  list, whatever the error argument is; when only an error is given, a failed record with
  that error is appended; when neither is given, the call raises \<open>ValueError\<close>.
  Without \<open>inputs\<close> the call raises \<open>ValueError\<close>.
\<close>

theorem record_contract:
  "Logbook_record L (Some b) (Some n) (Some ins) err =
     Inr (L\<lparr>bubbles := bubbles L @ [b],
            op_records := op_records L @
              [\<lparr>rec_op_name = n, rec_inputs = ins, rec_output = Some b,
                rec_status = Completed, rec_error = None\<rparr>]\<rparr>)
   \<and> Logbook_record L None (Some n) (Some ins) (Some e) =
     Inr (L\<lparr>op_records := op_records L @
              [\<lparr>rec_op_name = n, rec_inputs = ins, rec_output = None,
                rec_status = Failed, rec_error = Some e\<rparr>]\<rparr>)
   \<and> Logbook_record L None (Some n) (Some ins) None =
     Inl (ValueError ''Either bubble or error must be provided for Op execution'')
   \<and> Logbook_record L bubble (Some n) None err =
     Inl (ValueError ''inputs is required when op_name is provided'')"
  by (simp add: Logbook_record_def complete_def fail_def OpRecord_init_def)

text \<open>
  Claim C6 as stated fails: with both a bubble and an error the call returns, and the
  record it appends is completed and carries no error.
\<close>

theorem record_both_counterexample:
  "Logbook_record (Logbook_init ''lab'') (Some 1) (Some ''Generate'') (Some [0]) (Some ''boom'') =
     Inr \<lparr>lb_name = ''lab'',
          op_records = [\<lparr>rec_op_name = ''Generate'', rec_inputs = [0], rec_output = Some 1,
            rec_status = Completed, rec_error = None\<rparr>],
          bubbles = [1]\<rparr>"
  by (simp add: Logbook_record_def Logbook_init_def complete_def OpRecord_init_def)

section \<open>A forward method that raises\<close>

text \<open>
  Claim C7. When \<open>forward\<close> raises, \<open>OpFunction.apply\<close> raises a
  \<open>RuntimeError\<close> whose cause is the original exception; \<open>Op.__call__\<close> with a
  Logbook appends exactly one record, with status failed and an error text that ends with
  the original message, and leaves the bubble list as it was.
\<close>

theorem forward_failure:
  assumes "fwd (map VState states) h = (Inl e, h1)"
  shows "OpFunction_apply c fwd (map VState states) h =
           (Inl (RuntimeError (''Op '' @ name c @ '' failed: '' @ str_exn e) e), h1)
       \<and> Op_call c fwd states (Some L) h =
           (Inl (RuntimeError (''Op '' @ name c @ '' failed: '' @ str_exn e) e), h1,
            Some (L\<lparr>op_records := op_records L @
              [\<lparr>rec_op_name = name c, rec_inputs = states, rec_output = None,
                rec_status = Failed,
                rec_error = Some (''Op '' @ name c @ '' failed: '' @ str_exn e)\<rparr>]\<rparr>))
       \<and> bubbles (L\<lparr>op_records := op_records L @
              [\<lparr>rec_op_name = name c, rec_inputs = states, rec_output = None,
                rec_status = Failed,
                rec_error = Some (''Op '' @ name c @ '' failed: '' @ str_exn e)\<rparr>]\<rparr>) = bubbles L
       \<and> (\<exists>pre. ''Op '' @ name c @ '' failed: '' @ str_exn e = pre @ str_exn e)"
proof -
  have "find (\<lambda>v. \<not> is_State v) (map VState states) = None"
    by (simp add: find_None_iff)
  then have res: "OpFunction_apply c fwd (map VState states) h =
           (Inl (RuntimeError (''Op '' @ name c @ '' failed: '' @ str_exn e) e), h1)"
    using assms by (simp add: OpFunction_apply_def)
  have "''Op '' @ name c @ '' failed: '' @ str_exn e = (''Op '' @ name c @ '' failed: '') @ str_exn e"
    by simp
  then have "\<exists>pre. ''Op '' @ name c @ '' failed: '' @ str_exn e = pre @ str_exn e"
    by (rule exI)
  with res Op_call_failure(1)[OF res, of L] show ?thesis
    by simp
qed

theorem forward_failure_witness:
  "raises (Exception ''bad input'') (map VState [0]) heap_two
     = (Inl (Exception ''bad input''), heap_two)
   \<and> Op_call op_crit (raises (Exception ''bad input'')) [0] (Some (Logbook_init ''lab'')) heap_two =
       (Inl (RuntimeError ''Op review failed: bad input'' (Exception ''bad input'')), heap_two,
        Some \<lparr>lb_name = ''lab'',
              op_records = [\<lparr>rec_op_name = ''review'', rec_inputs = [0], rec_output = None,
                rec_status = Failed, rec_error = Some ''Op review failed: bad input''\<rparr>],
              bubbles = []\<rparr>)"
proof -
  have fwd: "raises (Exception ''bad input'') (map VState [0]) heap_two
     = (Inl (Exception ''bad input''), heap_two)"
    by (simp add: raises_def)
  from forward_failure[where fwd="raises (Exception ''bad input'')" and c=op_crit
      and L="Logbook_init ''lab''", OF fwd] fwd
  show ?thesis
    by (simp add: Logbook_init_def op_crit_def Op_init_def)
qed

section \<open>Cycles in the two walks\<close>







text \<open>
  The walks with the frame limit give what the walks without it give, whenever they
  return, and they return when more frames are available than Nodes can be visited.
\<close>

lemma build_frames_refines:
  "build_tree_frames frames h md a depth vis = Inr r \<longrightarrow> r = build_tree h md a depth vis"
  "build_inputs_frames frames h md xs depth vis = Inr rs \<longrightarrow> rs = build_inputs h md xs depth vis"
proof (induction frames h md a depth vis and frames h md xs depth vis arbitrary: r and rs
    rule: build_tree_frames_build_inputs_frames.induct)
  case (1 h max_depth a depth visited)
  show ?case by simp
next
  case (2 frames h max_depth a depth visited)
  show ?case
  proof (cases "a \<in> visited \<or> too_deep max_depth depth")
    case True
    then show ?thesis by (auto simp: build_tree.simps[of h max_depth a depth visited])
  next
    case False
    show ?thesis
    proof (cases "inputs (deref h a) = []")
      case True
      with False show ?thesis by (auto simp: build_tree.simps[of h max_depth a depth visited])
    next
      case ne: False
      show ?thesis
      proof (cases "build_inputs_frames frames h max_depth (inputs (deref h a)) (depth + 1)
                      (insert a visited)")
        case (Inl e)
        with False ne show ?thesis by simp
      next
        case (Inr rs)
        with "2.IH"[OF False ne, of rs]
        have "rs = build_inputs h max_depth (inputs (deref h a)) (depth + 1) (insert a visited)"
          by simp
        with False ne Inr show ?thesis
          by (auto simp: build_tree.simps[of h max_depth a depth visited] split: prod.splits)
      qed
    qed
  qed
next
  case (3 frames h max_depth depth visited)
  show ?case by auto
next
  case (4 frames h max_depth x xs depth visited)
  show ?case
  proof (cases "build_tree_frames frames h max_depth x depth visited")
    case (Inl e)
    then show ?thesis by simp
  next
    case (Inr r1)
    obtain t evs1 visited1 where r1: "r1 = (t, evs1, visited1)" by (cases r1) auto
    from "4.IH"(1)[of r1] Inr have bt: "build_tree h max_depth x depth visited = (t, evs1, visited1)"
      using r1 by simp
    show ?thesis
    proof (cases "build_inputs_frames frames h max_depth xs depth visited1")
      case (Inl e)
      with Inr r1 show ?thesis by simp
    next
      case (Inr r2)
      from "4.IH"(2)[OF \<open>build_tree_frames frames h max_depth x depth visited = Inr r1\<close> r1[THEN sym]]
      have "r2 = build_inputs h max_depth xs depth visited1"
        using Inr by (auto simp: r1)
      with \<open>build_tree_frames frames h max_depth x depth visited = Inr r1\<close> r1 Inr bt show ?thesis
        by (auto split: prod.splits)
    qed
  qed
qed


lemma build_visited_mono:
  "build_tree h md a d vis = (t, ev, vis') \<Longrightarrow> vis \<subseteq> vis'"
  using build_mono(1)[of h md a d vis t ev vis'] build_total by simp

lemma build_frames_returns:
  "unvisited h vis < frames \<longrightarrow> (\<exists>r. build_tree_frames frames h md a depth vis = Inr r)"
  "unvisited h vis < frames \<longrightarrow> (\<exists>rs. build_inputs_frames frames h md xs depth vis = Inr rs)"
proof (induction frames h md a depth vis and frames h md xs depth vis
    rule: build_tree_frames_build_inputs_frames.induct)
  case (1 h max_depth a depth visited)
  show ?case by simp
next
  case (2 frames h max_depth a depth visited)
  show ?case
  proof
    assume en: "unvisited h visited < Suc frames"
    show "\<exists>r. build_tree_frames (Suc frames) h max_depth a depth visited = Inr r"
    proof (cases "a \<in> visited \<or> too_deep max_depth depth")
      case True
      then show ?thesis by auto
    next
      case False
      show ?thesis
      proof (cases "inputs (deref h a) = []")
        case True
        with False show ?thesis by auto
      next
        case ne: False
        from False deref_inputs_valid[OF ne]
        have "unvisited h (insert a visited) < unvisited h visited"
          by (simp add: unvisited_insert)
        with en have "unvisited h (insert a visited) < frames" by simp
        with "2.IH"[OF False ne] obtain rs where
          "build_inputs_frames frames h max_depth (inputs (deref h a)) (depth + 1)
             (insert a visited) = Inr rs"
          by auto
        with False ne show ?thesis
          by (auto split: prod.splits)
      qed
    qed
  qed
next
  case (3 frames h max_depth depth visited)
  show ?case by simp
next
  case (4 frames h max_depth x xs depth visited)
  show ?case
  proof
    assume en: "unvisited h visited < frames"
    with "4.IH"(1) obtain r1 where r1: "build_tree_frames frames h max_depth x depth visited = Inr r1"
      by auto
    obtain t evs1 visited1 where t: "r1 = (t, evs1, visited1)" by (cases r1) auto
    from build_frames_refines(1)[of frames h max_depth x depth visited r1] r1 t
    have "build_tree h max_depth x depth visited = (t, evs1, visited1)" by simp
    from build_visited_mono[OF this] have "visited \<subseteq> visited1" .
    from unvisited_mono[OF this, of h] en have "unvisited h visited1 < frames" by simp
    with "4.IH"(2)[OF r1 t[THEN sym]] obtain r2 where
      "build_inputs_frames frames h max_depth xs depth visited1 = Inr r2"
      by auto
    with r1 t show "\<exists>rs. build_inputs_frames frames h max_depth (x # xs) depth visited = Inr rs"
      by (auto split: prod.splits)
  qed
qed

lemma trace_frames_refines:
  "trace_tree_frames frames h rs count a depth vis prefix = Inr r \<longrightarrow>
     r = trace_tree h rs count a depth vis prefix"
  "trace_inputs_frames frames h rs count xs depth vis prefix = Inr r' \<longrightarrow>
     r' = trace_inputs h rs count xs depth vis prefix"
proof (induction frames h rs count a depth vis prefix and frames h rs count xs depth vis prefix
    arbitrary: r and r' rule: trace_tree_frames_trace_inputs_frames.induct)
  case (1 h rs count a depth visited prefix)
  show ?case by simp
next
  case (2 frames h rs count a depth visited prefix)
  show ?case
  proof (cases "limit_reached count depth \<or> bubble_id (deref h a) \<in> visited \<or> frames = 0")
    case True
    then show ?thesis
      by (auto simp: trace_tree.simps[of h rs count a depth visited prefix])
  next
    case False
    then have c: "\<not> limit_reached count depth" "bubble_id (deref h a) \<notin> visited" "frames \<noteq> 0"
      by auto
    show ?thesis
    proof (cases "producing_record h rs a")
      case None
      with c show ?thesis
        by (auto simp: trace_tree.simps[of h rs count a depth visited prefix])
    next
      case (Some rec)
      show ?thesis
      proof (cases "trace_inputs_frames frames h rs count (rec_inputs rec) (depth + 1)
                      (insert (bubble_id (deref h a)) visited) prefix")
        case (Inl e)
        with c Some show ?thesis by simp
      next
        case (Inr q)
        with "2.IH"[OF c Some, of q]
        have "q = trace_inputs h rs count (rec_inputs rec) (depth + 1)
                    (insert (bubble_id (deref h a)) visited) prefix"
          by simp
        with c Some Inr show ?thesis
          by (auto simp: trace_tree.simps[of h rs count a depth visited prefix] split: prod.splits)
      qed
    qed
  qed
next
  case (3 frames h rs count depth visited prefix)
  show ?case by auto
next
  case (4 frames h rs count x xs depth visited prefix)
  show ?case
  proof (cases "trace_tree_frames frames h rs count x depth visited (child_prefix prefix (xs = []))")
    case (Inl e)
    then show ?thesis by simp
  next
    case r1: (Inr r1)
    obtain c evs1 where p: "r1 = (c, evs1)" by (cases r1) auto
    from "4.IH"(1)[of r1] r1
    have tt: "trace_tree h rs count x depth visited (child_prefix prefix (xs = [])) = (c, evs1)"
      using p by simp
    show ?thesis
    proof (cases "trace_inputs_frames frames h rs count xs depth visited prefix")
      case (Inl e)
      with r1 p show ?thesis by simp
    next
      case (Inr r2)
      from "4.IH"(2)[OF r1 p[THEN sym]] Inr
      have "r2 = trace_inputs h rs count xs depth visited prefix"
        by auto
      with r1 p Inr tt show ?thesis
        by (auto split: prod.splits)
    qed
  qed
qed

lemma unseen_pos: "bubble_id (deref h a) \<notin> vis \<Longrightarrow> 0 < unseen h vis"
  using unseen_insert[of h a vis] by simp

lemma trace_frames_returns:
  "unseen h vis < frames \<longrightarrow>
     (\<exists>r. trace_tree_frames frames h rs count a depth vis prefix = Inr r)"
  "unseen h vis < frames \<longrightarrow>
     (\<exists>r. trace_inputs_frames frames h rs count xs depth vis prefix = Inr r)"
proof (induction frames h rs count a depth vis prefix and frames h rs count xs depth vis prefix
    rule: trace_tree_frames_trace_inputs_frames.induct)
  case (1 h rs count a depth visited prefix)
  show ?case by simp
next
  case (2 frames h rs count a depth visited prefix)
  show ?case
  proof
    assume en: "unseen h visited < Suc frames"
    show "\<exists>r. trace_tree_frames (Suc frames) h rs count a depth visited prefix = Inr r"
    proof (cases "limit_reached count depth \<or> bubble_id (deref h a) \<in> visited")
      case True
      then show ?thesis by auto
    next
      case False
      then have c: "\<not> limit_reached count depth" "bubble_id (deref h a) \<notin> visited"
        by auto
      from unseen_insert[OF c(2)] en
      have less: "unseen h (insert (bubble_id (deref h a)) visited) < frames" by simp
      then have f: "frames \<noteq> 0" by simp
      show ?thesis
      proof (cases "producing_record h rs a")
        case None
        with c f show ?thesis by simp
      next
        case (Some rec)
        from "2.IH"[OF c f Some] less obtain q where
          "trace_inputs_frames frames h rs count (rec_inputs rec) (depth + 1)
             (insert (bubble_id (deref h a)) visited) prefix = Inr q"
          by auto
        with c f Some show ?thesis
          by (auto split: prod.splits)
      qed
    qed
  qed
next
  case (3 frames h rs count depth visited prefix)
  show ?case by simp
next
  case (4 frames h rs count x xs depth visited prefix)
  show ?case
  proof
    assume en: "unseen h visited < frames"
    with "4.IH"(1) obtain r1 where
      r1: "trace_tree_frames frames h rs count x depth visited (child_prefix prefix (xs = [])) = Inr r1"
      by auto
    obtain c evs1 where p: "r1 = (c, evs1)" by (cases r1) auto
    from "4.IH"(2)[OF r1 p[THEN sym]] en obtain r2 where
      "trace_inputs_frames frames h rs count xs depth visited prefix = Inr r2"
      by auto
    with r1 p show "\<exists>r. trace_inputs_frames frames h rs count (x # xs) depth visited prefix = Inr r"
      by (auto split: prod.splits)
  qed
qed

lemma build_frames_error:
  "build_tree_frames frames h md a depth vis = Inl e \<longrightarrow> e = recursion_error"
  "build_inputs_frames frames h md xs depth vis = Inl e \<longrightarrow> e = recursion_error"
  by (induction frames h md a depth vis and frames h md xs depth vis
      rule: build_tree_frames_build_inputs_frames.induct)
    (auto split: sum.splits prod.splits if_splits)

lemma trace_frames_error:
  "trace_tree_frames frames h rs count a depth vis prefix = Inl e \<longrightarrow> e = recursion_error"
  "trace_inputs_frames frames h rs count xs depth vis prefix = Inl e \<longrightarrow> e = recursion_error"
  by (induction frames h rs count a depth vis prefix and frames h rs count xs depth vis prefix
      rule: trace_tree_frames_trace_inputs_frames.induct)
    (auto split: sum.splits prod.splits if_splits option.splits)

















lemma unvisited_empty: "unvisited h {} = length h"
  by (simp add: unvisited_def)

lemma unseen_empty: "unseen h {} \<le> length h + 1"
proof -
  have "card (all_ids h) \<le> Suc (card (bubble_id ` set h))"
    unfolding all_ids_def by (simp add: card_insert_le_m1)
  also have "card (bubble_id ` set h) \<le> card (set h)"
    by (rule card_image_le) simp
  also have "card (set h) \<le> length h"
    by (rule card_length)
  finally show ?thesis by (simp add: unseen_def)
qed

lemma backward_frames_cases:
  "backward_frames frames h a md = Inr (backward h a md)
   \<or> backward_frames frames h a md = Inl recursion_error"
proof (cases "build_tree_frames frames h md a 0 {}")
  case (Inl e)
  with build_frames_error(1)[of frames h md a 0 "{}" e] show ?thesis
    by (simp add: backward_frames_def)
next
  case (Inr r)
  with build_frames_refines(1)[of frames h md a 0 "{}" r] show ?thesis
    by (simp add: backward_frames_def backward_def split: prod.splits)
qed

lemma backward_frames_enough:
  "length h < frames \<Longrightarrow> backward_frames frames h a md = Inr (backward h a md)"
  using build_frames_returns(1)[of h "{}" frames md a 0] backward_frames_cases[of frames h a md]
  by (auto simp: unvisited_empty backward_frames_def)

lemma display_frames_cases:
  "display_frames frames L h (Some a) count = (display L h (Some a) count, None)
   \<or> display_frames frames L h (Some a) count
        = ([memo_sym @ '' Logbook '' @ [CHR 0x27] @ lb_name L @ [CHR 0x27] @ txt_trace_header],
           Some recursion_error)"
proof (cases "trace_tree_frames frames h (op_records L) count a 0 {} []")
  case (Inl e)
  with trace_frames_error(1)[of frames h "op_records L" count a 0 "{}" "[]" e] show ?thesis
    by (simp add: display_frames_def start_bubble_def)
next
  case (Inr r)
  with trace_frames_refines(1)[of frames h "op_records L" count a 0 "{}" "[]" r] show ?thesis
    by (simp add: display_frames_def display_def start_bubble_def split: prod.splits)
qed

lemma display_frames_enough:
  "length h + 1 < frames \<Longrightarrow>
     display_frames frames L h (Some a) count = (display L h (Some a) count, None)"
  using trace_frames_returns(1)[of h "{}" frames "op_records L" count a 0 "[]"]
    display_frames_cases[of frames L h a count] unseen_empty[of h]
  by (auto simp: display_frames_def start_bubble_def)




text \<open>
  Two Nodes that are each other's input, the records that say so, and the text of the
  two walks on them.
\<close>

definition heap_cycle :: heap where
  "heap_cycle =
     [derived_state ''bubble_0'' ''A'' op_gen [1], derived_state ''bubble_1'' ''B'' op_gen [0]]"

definition lb_cycle :: Logbook where
  "lb_cycle =
     \<lparr>lb_name = ''lab'',
      op_records = [complete (OpRecord_init ''Generate'' [1]) 0,
                    complete (OpRecord_init ''Generate'' [0]) 1],
      bubbles = [0, 1]\<rparr>"







lemma cycle_runs:
  "backward_events heap_cycle 0 None = [Rendered 0 0, Rendered 1 1, Cut 2 0]"
  "display_events lb_cycle heap_cycle (Some 0) None = [OpLine 0 0, OpLine 1 1, CycleMark 2 0]"
  by (simp_all add: backward_events_def display_events_def start_bubble_def build_tree.simps
      trace_tree.simps too_deep_def limit_reached_def producing_record_def heap_cycle_def
      lb_cycle_def deref_def derived_state_def origin_state_def complete_def OpRecord_init_def)





















section \<open>Shared ancestors\<close>

text \<open>
  A diamond: Node 3 was made from Nodes 1 and 2, which were both made from Node 0.
\<close>

definition heap_diamond :: heap where
  "heap_diamond =
     [origin_state ''bubble_0'' ''A'',
      derived_state ''bubble_1'' ''B'' op_gen [0],
      derived_state ''bubble_2'' ''C'' op_gen [0],
      derived_state ''bubble_3'' ''D'' op_crit [1, 2]]"

definition lb_diamond :: Logbook where
  "lb_diamond =
     \<lparr>lb_name = ''lab'',
      op_records = [complete (OpRecord_init ''Generate'' [0]) 1,
                    complete (OpRecord_init ''Generate'' [0]) 2,
                    complete (OpRecord_init ''review'' [1, 2]) 3],
      bubbles = [0, 1, 2, 3]\<rparr>"

text \<open>
  Claim C8. \<open>display\<close> renders the shared ancestor 0 under both siblings.
  \<open>backward\<close> renders it under the first sibling only: under the second one it prints
  the marker line for Node 0, which is not on the path from the start to that place,
  because the one \<open>visited\<close> set is shared by all branches.
\<close>

theorem shared_ancestor_runs:
  "backward_events heap_diamond 3 None =
     [Rendered 0 3, Rendered 1 1, Rendered 2 0, Rendered 1 2, Cut 2 0]
   \<and> backward heap_diamond 3 None =
     join newline
       [render_current (heap_diamond ! 3) 0,
        render_current (heap_diamond ! 1) 1,
        render_current (heap_diamond ! 0) 2,
        render_current (heap_diamond ! 2) 1,
        cut_line (heap_diamond ! 0) 2]
   \<and> display_events lb_diamond heap_diamond (Some 3) None =
     [OpLine 0 3, OpLine 1 1, OriginLine 2 0, OpLine 1 2, OriginLine 2 0]"
  by (simp add: run_simps heap_diamond_def lb_diamond_def join_def eval_nat_numeral)

text \<open>
  With five frames or more the walks on the diamond return the text above.
\<close>

lemma diamond_within_frames:
  "4 < frames \<Longrightarrow>
     backward_frames frames heap_diamond 3 None = Inr (backward heap_diamond 3 None)"
  "5 < frames \<Longrightarrow>
     display_frames frames lb_diamond heap_diamond (Some 3) None
       = (display lb_diamond heap_diamond (Some 3) None, None)"
  using backward_frames_enough[of heap_diamond frames 3 None]
    display_frames_enough[of heap_diamond frames lb_diamond 3 None]
  by (simp_all add: heap_diamond_def)

section \<open>The depth limit\<close>

text \<open>
  With \<open>max_depth = k\<close>, \<open>backward\<close> renders no Node deeper than \<open>k\<close>; with
  \<open>count = k\<close> and \<open>k\<close> not zero, \<open>display\<close> renders no Node at depth \<open>k\<close> or
  deeper.
\<close>

lemma build_depth:
  "\<forall>d x. Rendered d x \<in> set (fst (snd (build_tree h (Some k) a depth vis))) \<longrightarrow>
     depth \<le> d \<and> int d \<le> k"
  "\<forall>d x. Rendered d x \<in> set (fst (snd (build_inputs h (Some k) xs depth vis))) \<longrightarrow>
     depth \<le> d \<and> int d \<le> k"
proof (induction h "Some k :: int option" a depth vis and h "Some k :: int option" xs depth vis
    rule: build_tree_build_inputs.induct)
  case (1 h a depth visited)
  show ?case
  proof (cases "a \<in> visited \<or> too_deep (Some k) depth")
    case True
    then show ?thesis by (auto simp: build_tree.simps[of h "Some k" a depth visited])
  next
    case False
    then have le: "int depth \<le> k" by (simp add: too_deep_def)
    show ?thesis
    proof (cases "inputs (deref h a) = []")
      case True
      with False le show ?thesis
        by (auto simp: build_tree.simps[of h "Some k" a depth visited])
    next
      case ne: False
      obtain rs evs visited' where bi:
        "build_inputs h (Some k) (inputs (deref h a)) (depth + 1) (insert a visited)
           = (rs, evs, visited')"
        by (cases "build_inputs h (Some k) (inputs (deref h a)) (depth + 1) (insert a visited)")
          auto
      have "fst (snd (build_tree h (Some k) a depth visited)) = Rendered depth a # evs"
        using False ne bi by (simp add: build_tree.simps[of h "Some k" a depth visited])
      with "1.hyps"[OF False ne] bi le show ?thesis
        by auto
    qed
  qed
next
  case (2 h depth visited)
  show ?case by simp
next
  case (3 h x xs depth visited)
  obtain t evs1 visited1 where bt: "build_tree h (Some k) x depth visited = (t, evs1, visited1)"
    by (cases "build_tree h (Some k) x depth visited") auto
  obtain ts evs2 visited2 where bi: "build_inputs h (Some k) xs depth visited1 = (ts, evs2, visited2)"
    by (cases "build_inputs h (Some k) xs depth visited1") auto
  have "fst (snd (build_inputs h (Some k) (x # xs) depth visited)) = evs1 @ evs2"
    using bt bi by simp
  with "3.hyps"(1) "3.hyps"(2)[OF bt[symmetric] refl] bt bi show ?case
    by auto
qed


fun is_node_line :: "tevent \<Rightarrow> bool" where
  "is_node_line (OpLine d x) = True"
| "is_node_line (OriginLine d x) = True"
| "is_node_line ev = False"

fun tevent_depth :: "tevent \<Rightarrow> nat" where
  "tevent_depth (OpLine d x) = d"
| "tevent_depth (OriginLine d x) = d"
| "tevent_depth (CycleMark d x) = d"
| "tevent_depth (DepthMark d x) = d"

lemma trace_depth:
  "k \<noteq> 0 \<longrightarrow> (\<forall>ev \<in> set (snd (trace_tree h rs (Some k) a depth vis prefix)).
     is_node_line ev \<longrightarrow> int (tevent_depth ev) < k)"
  "k \<noteq> 0 \<longrightarrow> (\<forall>ev \<in> set (snd (trace_inputs h rs (Some k) xs depth vis prefix)).
     is_node_line ev \<longrightarrow> int (tevent_depth ev) < k)"
proof (induction h rs "Some k :: int option" a depth vis prefix
    and h rs "Some k :: int option" xs depth vis prefix rule: trace_tree_trace_inputs.induct)
  case (1 h rs a depth visited prefix)
  show ?case
  proof
    assume k: "k \<noteq> 0"
    show "\<forall>ev \<in> set (snd (trace_tree h rs (Some k) a depth visited prefix)).
            is_node_line ev \<longrightarrow> int (tevent_depth ev) < k"
    proof (cases "limit_reached (Some k) depth")
      case True
      then show ?thesis by (simp add: trace_tree.simps[of h rs "Some k" a depth visited prefix])
    next
      case nl: False
      then have lt: "int depth < k" using k by (simp add: limit_reached_def)
      show ?thesis
      proof (cases "bubble_id (deref h a) \<in> visited")
        case True
        with nl show ?thesis
          by (simp add: trace_tree.simps[of h rs "Some k" a depth visited prefix])
      next
        case nv: False
        show ?thesis
        proof (cases "producing_record h rs a")
          case None
          with nl nv lt show ?thesis
            by (simp add: trace_tree.simps[of h rs "Some k" a depth visited prefix])
        next
          case (Some r)
          obtain t evs where ti:
            "trace_inputs h rs (Some k) (rec_inputs r) (depth + 1)
               (insert (bubble_id (deref h a)) visited) prefix = (t, evs)"
            by (cases "trace_inputs h rs (Some k) (rec_inputs r) (depth + 1)
                  (insert (bubble_id (deref h a)) visited) prefix") auto
          have "snd (trace_tree h rs (Some k) a depth visited prefix) = OpLine depth a # evs"
            using nl nv Some ti
            by (simp add: trace_tree.simps[of h rs "Some k" a depth visited prefix])
          with "1.hyps"[OF nl nv Some] k ti lt show ?thesis
            by auto
        qed
      qed
    qed
  qed
next
  case (2 h rs depth visited prefix)
  show ?case by simp
next
  case (3 h rs x xs depth visited prefix)
  obtain c evs1 where tt:
    "trace_tree h rs (Some k) x depth visited (child_prefix prefix (xs = [])) = (c, evs1)"
    by (cases "trace_tree h rs (Some k) x depth visited (child_prefix prefix (xs = []))") auto
  obtain t evs2 where ti: "trace_inputs h rs (Some k) xs depth visited prefix = (t, evs2)"
    by (cases "trace_inputs h rs (Some k) xs depth visited prefix") auto
  have "snd (trace_inputs h rs (Some k) (x # xs) depth visited prefix) = evs1 @ evs2"
    using tt ti by simp
  with "3.hyps"(1) "3.hyps"(2)[OF tt[symmetric]] tt ti show ?case
    by auto
qed

text \<open>
  A chain: Node 2 was made from Node 1, which was made from Node 0.
\<close>

definition heap_chain :: heap where
  "heap_chain =
     [origin_state ''bubble_0'' ''A'',
      derived_state ''bubble_1'' ''B'' op_gen [0],
      derived_state ''bubble_2'' ''C'' op_crit [1]]"

definition lb_chain :: Logbook where
  "lb_chain =
     \<lparr>lb_name = ''lab'',
      op_records = [complete (OpRecord_init ''Generate'' [0]) 1,
                    complete (OpRecord_init ''review'' [1]) 2],
      bubbles = [0, 1, 2]\<rparr>"

text \<open>
  Claim C10. With \<open>count = 0\<close> the test \<open>count and depth >= count\<close> of
  \<open>display\<close> never holds: the whole chain is rendered, two hops beyond the start, and
  no depth marker is printed. With \<open>count = 1\<close> the walk stops below the start, and
  \<open>backward\<close> with \<open>max_depth = 0\<close> renders the start and cuts its input.
\<close>

theorem depth_zero_runs:
  "display_events lb_chain heap_chain (Some 2) (Some 0) =
     [OpLine 0 2, OpLine 1 1, OriginLine 2 0]
   \<and> display_events lb_chain heap_chain (Some 2) (Some 1) = [OpLine 0 2, DepthMark 1 1]
   \<and> backward_events heap_chain 2 (Some 0) = [Rendered 0 2, Cut 1 1]"
  by (simp add: run_simps heap_chain_def lb_chain_def)

text \<open>
  With five frames or more the walk on the chain returns, so the run with \<open>count = 0\<close>
  is not cut short by the interpreter either.
\<close>

lemma chain_within_frames:
  "4 < frames \<Longrightarrow>
     display_frames frames lb_chain heap_chain (Some 2) (Some 0)
       = (display lb_chain heap_chain (Some 2) (Some 0), None)"
  using display_frames_enough[of heap_chain frames lb_chain 2 "Some 0"]
  by (simp add: heap_chain_def)

end
